theory Spec2Isabelle
  imports Complex_Main "HOL-Library.Product_Lexorder" "HOL-Library.Char_ord"
    "HOL-Library.List_Lexorder"
begin

section \<open>Numbers of the notebooks\<close>

text \<open>
  The attribution vectors are numpy arrays of double precision numbers (IEEE 754
  binary64). A finite double is modelled by the real number it stands for; the three
  special values that numpy's arithmetic produces instead of raising are added: both
  infinities and NaN. The sign of a zero is not modelled.
\<close>

datatype npfloat = Fin real | PInf | NInf | NaN

subsection \<open>Rounding to double\<close>

text \<open>
  A quotient, a sum or a product of two doubles is the exact result rounded to the
  nearest double, ties to the even significand. A double is an integer multiple of its
  \<open>quantum\<close>, the power of two 52 places below its binary exponent; the exponent
  does not go below -1022, so that the subnormal range has the quantum \<open>2 powi (- 1074)\<close>.
  \<open>round_double\<close> rounds with unbounded exponent range above; \<open>np_round\<close> adds the
  overflow to an infinity, from \<open>2 powi 1024\<close> on. A decimal literal \<open>l\<close> of the source
  is the double \<open>round_double l\<close>.
\<close>

definition float_exponent :: "real \<Rightarrow> int" where
  "float_exponent x = max \<lfloor>log 2 \<bar>x\<bar>\<rfloor> (- 1022)"

definition quantum :: "real \<Rightarrow> real" where
  "quantum x = 2 powi (float_exponent x - 52)"

definition round_half_even :: "real \<Rightarrow> int" where
  "round_half_even t =
     (let n = \<lfloor>t\<rfloor>; r = t - of_int n
      in if r < 1 / 2 then n else if 1 / 2 < r then n + 1 else if even n then n else n + 1)"

definition round_double :: "real \<Rightarrow> real" where
  "round_double x =
     (if x = 0 then 0 else quantum x * of_int (round_half_even (x / quantum x)))"

definition signed_inf :: "bool \<Rightarrow> npfloat" where
  "signed_inf positive = (if positive then PInf else NInf)"

definition np_round :: "real \<Rightarrow> npfloat" where
  "np_round x =
     (if 2 powi 1024 \<le> \<bar>round_double x\<bar> then signed_inf (0 < x) else Fin (round_double x))"

subsection \<open>Arithmetic and comparison\<close>

datatype error = ValueError | KeyError string | IndexError | TypeError

fun np_neg :: "npfloat \<Rightarrow> npfloat" where
  "np_neg (Fin x) = Fin (- x)"
| "np_neg PInf = NInf"
| "np_neg NInf = PInf"
| "np_neg NaN = NaN"

fun np_abs :: "npfloat \<Rightarrow> npfloat" where
  "np_abs (Fin x) = Fin \<bar>x\<bar>"
| "np_abs PInf = PInf"
| "np_abs NInf = PInf"
| "np_abs NaN = NaN"

text \<open>The comparison \<open>a < b\<close> of two floats: every comparison with NaN is false.\<close>

fun np_lt :: "npfloat \<Rightarrow> npfloat \<Rightarrow> bool" where
  "np_lt (Fin x) (Fin y) = (x < y)"
| "np_lt (Fin x) PInf = True"
| "np_lt NInf (Fin y) = True"
| "np_lt NInf PInf = True"
| "np_lt a b = False"

definition np_gt :: "npfloat \<Rightarrow> npfloat \<Rightarrow> bool" where
  "np_gt a b = np_lt b a"

fun np_add :: "npfloat \<Rightarrow> npfloat \<Rightarrow> npfloat" where
  "np_add (Fin x) (Fin y) = np_round (x + y)"
| "np_add NaN b = NaN"
| "np_add a NaN = NaN"
| "np_add PInf NInf = NaN"
| "np_add NInf PInf = NaN"
| "np_add PInf b = PInf"
| "np_add a PInf = PInf"
| "np_add NInf b = NInf"
| "np_add a NInf = NInf"

text \<open>
  The only product of the program is that of the attributions with the mask, whose
  entries are 0 and 1: such a product of doubles is exact, and it is kept exact here.
\<close>

fun np_mul :: "npfloat \<Rightarrow> npfloat \<Rightarrow> npfloat" where
  "np_mul (Fin x) (Fin y) = Fin (x * y)"
| "np_mul NaN b = NaN"
| "np_mul a NaN = NaN"
| "np_mul (Fin x) PInf = (if x = 0 then NaN else signed_inf (0 < x))"
| "np_mul (Fin x) NInf = (if x = 0 then NaN else signed_inf (x < 0))"
| "np_mul PInf (Fin y) = (if y = 0 then NaN else signed_inf (0 < y))"
| "np_mul NInf (Fin y) = (if y = 0 then NaN else signed_inf (y < 0))"
| "np_mul PInf PInf = PInf"
| "np_mul NInf NInf = PInf"
| "np_mul PInf NInf = NInf"
| "np_mul NInf PInf = NInf"

text \<open>
  Division of array elements by a scalar: the rounded quotient. numpy does not raise on
  a zero divisor: it warns and stores NaN for \<open>0 / 0\<close> and an infinity for \<open>x / 0\<close>
  with \<open>x \<noteq> 0\<close> (the zero divisor is taken as positive, signed zeros not being
  modelled).
\<close>

fun np_div :: "npfloat \<Rightarrow> npfloat \<Rightarrow> npfloat" where
  "np_div (Fin x) (Fin y) =
     (if y = 0 then (if x = 0 then NaN else signed_inf (0 < x)) else np_round (x / y))"
| "np_div NaN b = NaN"
| "np_div a NaN = NaN"
| "np_div (Fin x) PInf = Fin 0"
| "np_div (Fin x) NInf = Fin 0"
| "np_div PInf (Fin y) = signed_inf (0 \<le> y)"
| "np_div NInf (Fin y) = signed_inf (y < 0)"
| "np_div PInf PInf = NaN"
| "np_div PInf NInf = NaN"
| "np_div NInf PInf = NaN"
| "np_div NInf NInf = NaN"

text \<open>
  \<open>attributions.sum()\<close>: the entries are added from left to right, each partial sum
  rounded, as numpy adds fewer than 8 entries. A longer array is added by numpy in
  blocks (pairwise summation), which can change the last bits of the sum; that order is
  not modelled.
\<close>

definition np_sum :: "npfloat list \<Rightarrow> npfloat" where
  "np_sum xs = foldl np_add (Fin 0) xs"

text \<open>
  Python's builtin \<open>max\<close>. Over a sequence it keeps the first item and replaces it by a
  later one only when that one compares greater; on an empty sequence it raises
  ValueError. With two arguments it returns the first unless the second is greater.
\<close>

fun py_max :: "npfloat list \<Rightarrow> error + npfloat" where
  "py_max [] = Inl ValueError"
| "py_max (x # xs) = Inr (foldl (\<lambda>m y. if np_gt y m then y else m) x xs)"

definition py_max2 :: "npfloat \<Rightarrow> npfloat \<Rightarrow> npfloat" where
  "py_max2 a b = (if np_gt b a then b else a)"

text \<open>Python's \<open>int\<close> of a float truncates towards zero.\<close>

definition py_int :: "real \<Rightarrow> int" where
  "py_int x = (if 0 \<le> x then \<lfloor>x\<rfloor> else \<lceil>x\<rceil>)"

text \<open>The slice \<open>xs[:k]\<close>: a negative \<open>k\<close> counts from the end.\<close>

definition py_slice_to :: "int \<Rightarrow> 'a list \<Rightarrow> 'a list" where
  "py_slice_to k xs =
     (if 0 \<le> k then take (nat k) xs else take (length xs - nat (- k)) xs)"

subsection \<open>numpy.argsort\<close>

text \<open>
  \<open>np.argsort\<close> is called without a \<open>kind\<close>, so numpy's default sort is used, which
  numpy documents as not stable. The library function is therefore a parameter of the
  model, constrained by what numpy guarantees: the result is a permutation of the
  positions that lists the values in ascending order, NaN last. \<open>sort_rank\<close> maps a
  float to its place in that order.
\<close>

fun sort_rank :: "npfloat \<Rightarrow> nat \<times> real" where
  "sort_rank NInf = (0, 0)"
| "sort_rank (Fin x) = (1, x)"
| "sort_rank PInf = (2, 0)"
| "sort_rank NaN = (3, 0)"

definition argsort_contract :: "(npfloat list \<Rightarrow> nat list) \<Rightarrow> bool" where
  "argsort_contract argsort \<longleftrightarrow>
     (\<forall>v. distinct (argsort v) \<and> set (argsort v) = {..<length v} \<and>
          sorted (map (\<lambda>i. sort_rank (v ! i)) (argsort v)))"

text \<open>One function that meets the contract: the stable insertion sort of the positions.\<close>

definition argsort_stable :: "npfloat list \<Rightarrow> nat list" where
  "argsort_stable v = sort_key (\<lambda>i. sort_rank (v ! i)) [0..<length v]"

section \<open>visualization_record\<close>

text \<open>The fields of captum's \<open>VisualizationDataRecord\<close>, in constructor order.\<close>

record visualization_data_record =
  word_attributions :: "npfloat list"
  pred_prob :: npfloat
  pred_class :: int
  true_class :: int
  attr_class :: bool
  attr_score :: npfloat
  raw_input_ids :: "string list"
  convergence_score :: real

text \<open>
  \<^verbatim>\<open>attributions = attributions / max(max(attributions), max(-attributions))\<close>
\<close>

definition normalize_attributions :: "npfloat list \<Rightarrow> error + npfloat list" where
  "normalize_attributions attributions =
     (case py_max attributions of
        Inl e \<Rightarrow> Inl e
      | Inr hi \<Rightarrow>
          (case py_max (map np_neg attributions) of
             Inl e \<Rightarrow> Inl e
           | Inr lo \<Rightarrow> Inr (map (\<lambda>a. np_div a (py_max2 hi lo)) attributions)))"

text \<open>
  \<^verbatim>\<open>num_show = int(max_frac_to_show * attributions.shape[0])\<close>
  The product is a product of doubles, hence rounded, before \<open>int\<close> truncates it. (The
  length is converted exactly, being far below \<open>2 ^ 53\<close>. A product beyond the range of
  the doubles, where \<open>int\<close> raises OverflowError, needs a fraction of astronomic size
  and is not modelled.)
\<close>

definition num_show :: "real \<Rightarrow> nat \<Rightarrow> int" where
  "num_show max_frac_to_show n = py_int (round_double (max_frac_to_show * real n))"

text \<open>
  The ranking vector \<open>sal\<close>:
  \<^verbatim>\<open>
  sal = attributions
  if pred < 0.5:
      sal = -sal
  if not match_to_pred:
      sal = np.abs(sal)
  \<close>
\<close>

definition ranking_vector :: "npfloat list \<Rightarrow> npfloat \<Rightarrow> bool \<Rightarrow> npfloat list" where
  "ranking_vector attributions pred match_to_pred =
     (let sal = attributions;
          sal = (if np_lt pred (Fin (1 / 2)) then map np_neg sal else sal);
          sal = (if \<not> match_to_pred then map np_abs sal else sal)
      in sal)"

text \<open>\<^verbatim>\<open>top_idxs = np.argsort(-sal)[:num_show]\<close>\<close>

definition top_idxs :: "(npfloat list \<Rightarrow> nat list) \<Rightarrow> npfloat list \<Rightarrow> int \<Rightarrow> nat list" where
  "top_idxs argsort sal k = py_slice_to k (argsort (map np_neg sal))"

text \<open>
  \<^verbatim>\<open>
  mask = np.zeros_like(attributions)
  mask[top_idxs] = 1
  \<close>
  The positions come from \<open>argsort\<close> over a vector of the same length, so they are in
  range.
\<close>

definition selection_mask :: "nat \<Rightarrow> nat list \<Rightarrow> npfloat list" where
  "selection_mask n idxs = fold (\<lambda>i mask. mask[i := Fin 1]) idxs (replicate n (Fin 0))"

text \<open>
  The second statement of the function, with its guard (\<open>max_frac_to_show\<close> is an
  optional real: \<open>None\<close> is Python's \<open>None\<close>):
  \<^verbatim>\<open>
  if max_frac_to_show is not None and max_frac_to_show < 1:
      num_show = int(max_frac_to_show * attributions.shape[0])
      sal = ...
      top_idxs = np.argsort(-sal)[:num_show]
      mask = np.zeros_like(attributions)
      mask[top_idxs] = 1
      attributions = attributions * mask
  \<close>
\<close>

definition salience_filter ::
  "(npfloat list \<Rightarrow> nat list) \<Rightarrow> npfloat list \<Rightarrow> npfloat \<Rightarrow> real option \<Rightarrow> bool \<Rightarrow>
   npfloat list" where
  "salience_filter argsort attributions pred max_frac_to_show match_to_pred =
     (case max_frac_to_show of
        None \<Rightarrow> attributions
      | Some f \<Rightarrow>
          if f < 1
          then (let k = num_show f (length attributions);
                    sal = ranking_vector attributions pred match_to_pred;
                    idxs = top_idxs argsort sal k;
                    mask = selection_mask (length attributions) idxs
                in map2 np_mul attributions mask)
          else attributions)"

text \<open>
  The function itself. The parameter \<open>normalize\<close> is written \<open>normalize_flag\<close>
  (the name is taken in HOL). The result is the record, or the exception raised.
\<close>

definition visualization_record ::
  "(npfloat list \<Rightarrow> nat list) \<Rightarrow> npfloat list \<Rightarrow> string list \<Rightarrow> npfloat \<Rightarrow> real \<Rightarrow> int \<Rightarrow>
   bool \<Rightarrow> real option \<Rightarrow> bool \<Rightarrow> error + visualization_data_record" where
  "visualization_record argsort attributions text pred delta true_label
       normalize_flag max_frac_to_show match_to_pred =
     (case (if normalize_flag then normalize_attributions attributions else Inr attributions) of
        Inl e \<Rightarrow> Inl e
      | Inr normalized \<Rightarrow>
          (let shown = salience_filter argsort normalized pred max_frac_to_show match_to_pred
           in Inr \<lparr> word_attributions = shown,
                    pred_prob = pred,
                    pred_class = (if np_gt pred (Fin (1 / 2)) then 1 else 0),
                    true_class = true_label,
                    attr_class = np_gt (np_sum shown) (Fin 0),
                    attr_score = np_sum shown,
                    raw_input_ids = text,
                    convergence_score = delta \<rparr>))"

section \<open>The lists of attributions and of tokens\<close>

text \<open>
  \<open>shap_out\<close> is the list of JSON lines of the analysis output, each decoded by
  \<open>json.loads\<close>. A decoded object is the list of its items (\<open>map_of\<close> is the lookup).
\<close>

datatype json =
    JNull
  | JBool bool
  | JNum real
  | JStr string
  | JArr "json list"
  | JObj "(string \<times> json) list"

text \<open>
  Subscription as Python evaluates it. \<open>x[key]\<close> with a string key: a dict looks the
  key up and raises KeyError when it is missing; every other JSON value raises TypeError.
\<close>

fun getitem_key :: "json \<Rightarrow> string \<Rightarrow> error + json" where
  "getitem_key (JObj items) key =
     (case map_of items key of None \<Rightarrow> Inl (KeyError key) | Some v \<Rightarrow> Inr v)"
| "getitem_key x key = Inl TypeError"

text \<open>
  \<open>x[0]\<close>: the first element of a list or the first character of a string (IndexError
  when empty); a dict has no key \<open>0\<close>; the other values cannot be subscripted.
\<close>

fun getitem_0 :: "json \<Rightarrow> error + json" where
  "getitem_0 (JArr []) = Inl IndexError"
| "getitem_0 (JArr (x # xs)) = Inr x"
| "getitem_0 (JStr []) = Inl IndexError"
| "getitem_0 (JStr (c # cs)) = Inr (JStr [c])"
| "getitem_0 (JObj items) = Inl (KeyError ''0'')"
| "getitem_0 x = Inl TypeError"

text \<open>What \<open>for attr in x\<close> iterates over.\<close>

fun py_iter :: "json \<Rightarrow> error + json list" where
  "py_iter (JArr xs) = Inr xs"
| "py_iter (JObj items) = Inr (map (\<lambda>item. JStr (fst item)) items)"
| "py_iter (JStr cs) = Inr (map (\<lambda>c. JStr [c]) cs)"
| "py_iter x = Inl TypeError"

definition bind_err :: "error + 'a \<Rightarrow> ('a \<Rightarrow> error + 'b) \<Rightarrow> error + 'b" where
  "bind_err m f = (case m of Inl e \<Rightarrow> Inl e | Inr x \<Rightarrow> f x)"

text \<open>
  A list comprehension \<open>[f(x) for x in xs]\<close> whose element expression may raise: the
  elements are computed in order, and the first exception ends the comprehension.
\<close>

fun comprehension :: "('a \<Rightarrow> error + 'b) \<Rightarrow> 'a list \<Rightarrow> error + 'b list" where
  "comprehension f [] = Inr []"
| "comprehension f (x # xs) =
     bind_err (f x) (\<lambda>y. bind_err (comprehension f xs) (\<lambda>ys. Inr (y # ys)))"

text \<open>\<^verbatim>\<open>expl["explanations"][0]["attributions"]\<close>, iterated.\<close>

definition explanation_entries :: "json \<Rightarrow> error + json list" where
  "explanation_entries expl =
     bind_err (getitem_key expl ''explanations'') (\<lambda>explanations.
     bind_err (getitem_0 explanations) (\<lambda>first.
     bind_err (getitem_key first ''attributions'') py_iter))"

text \<open>\<^verbatim>\<open>attr["attribution"][0]\<close>\<close>

definition entry_attribution :: "json \<Rightarrow> error + json" where
  "entry_attribution attr = bind_err (getitem_key attr ''attribution'') getitem_0"

text \<open>\<^verbatim>\<open>attr["description"]["partial_text"]\<close>\<close>

definition entry_token :: "json \<Rightarrow> error + json" where
  "entry_token attr =
     bind_err (getitem_key attr ''description'') (\<lambda>d. getitem_key d ''partial_text'')"

text \<open>
  The two comprehensions of the notebook. The model keeps the list of values that the
  inner comprehension extracts; the conversion of that list by \<open>np.array\<close> (which for
  the numbers and strings of a well formed record only changes the container) is not
  modelled.
  \<^verbatim>\<open>
  attributions_dataset = [
      np.array([attr["attribution"][0] for attr in expl["explanations"][0]["attributions"]])
      for expl in shap_out
  ]
  tokens_dataset = [
      np.array(
          [attr["description"]["partial_text"] for attr in expl["explanations"][0]["attributions"]]
      )
      for expl in shap_out
  ]
  \<close>
\<close>

definition instance_attributions :: "json \<Rightarrow> error + json list" where
  "instance_attributions expl =
     bind_err (explanation_entries expl) (comprehension entry_attribution)"

definition instance_tokens :: "json \<Rightarrow> error + json list" where
  "instance_tokens expl = bind_err (explanation_entries expl) (comprehension entry_token)"

definition attributions_dataset :: "json list \<Rightarrow> error + json list list" where
  "attributions_dataset shap_out = comprehension instance_attributions shap_out"

definition tokens_dataset :: "json list \<Rightarrow> error + json list list" where
  "tokens_dataset shap_out = comprehension instance_tokens shap_out"

section \<open>Dataframes\<close>










subsection \<open>create_target_column\<close>






subsection \<open>number_encode_features\<close>








section \<open>Properties of the rounding\<close>

lemma round_half_even_of_int [simp]: "round_half_even (of_int n) = n"
  by (simp add: round_half_even_def)

lemma round_half_even_numeral [simp]: "round_half_even (numeral k) = numeral k"
  using round_half_even_of_int [of "numeral k"] by simp

lemma round_half_even_0 [simp]: "round_half_even 0 = 0"
  using round_half_even_of_int [of 0] by simp

lemma round_half_even_1 [simp]: "round_half_even 1 = 1"
  using round_half_even_of_int [of 1] by simp

lemma round_half_even_mono:
  assumes "s \<le> t"
  shows "round_half_even s \<le> round_half_even t"
proof -
  have fl: "\<lfloor>s\<rfloor> \<le> \<lfloor>t\<rfloor>" using assms by (rule floor_mono)
  have s: "round_half_even s = \<lfloor>s\<rfloor> \<or> round_half_even s = \<lfloor>s\<rfloor> + 1"
    and t: "round_half_even t = \<lfloor>t\<rfloor> \<or> round_half_even t = \<lfloor>t\<rfloor> + 1"
    by (auto simp: round_half_even_def Let_def)
  show ?thesis
  proof (cases "\<lfloor>s\<rfloor> = \<lfloor>t\<rfloor>")
    case False
    with fl s t show ?thesis by linarith
  next
    case True
    with assms show ?thesis
      by (auto simp: round_half_even_def Let_def)
  qed
qed

lemma round_half_even_minus: "round_half_even (- t) = - round_half_even t"
proof (cases "t \<in> \<int>")
  case True
  then obtain n where "t = of_int n" by (auto elim: Ints_cases)
  then show ?thesis by (simp flip: of_int_minus)
next
  case False
  then have ne: "t \<noteq> of_int \<lfloor>t\<rfloor>" by (metis Ints_of_int)
  then have fl: "\<lfloor>- t\<rfloor> = - \<lfloor>t\<rfloor> - 1"
    by (simp add: floor_minus ceiling_altdef)
  have "of_int \<lfloor>t\<rfloor> \<le> t" by (rule of_int_floor_le)
  with ne have "0 < t - of_int \<lfloor>t\<rfloor>" by linarith
  then show ?thesis
    unfolding round_half_even_def Let_def fl
    by (auto simp: algebra_simps)
qed


lemma powr2_int: "2 powr (real_of_int k) = (2::real) powi k"
  by (simp add: powr_real_of_int')

lemma floor_log2_bounds:
  assumes "x \<noteq> 0"
  shows "2 powi \<lfloor>log 2 \<bar>x\<bar>\<rfloor> \<le> \<bar>x\<bar>" and "\<bar>x\<bar> < 2 powi (\<lfloor>log 2 \<bar>x\<bar>\<rfloor> + 1)"
proof -
  have "0 < \<bar>x\<bar>" using assms by simp
  then have "2 powr (real_of_int \<lfloor>log 2 \<bar>x\<bar>\<rfloor>) \<le> \<bar>x\<bar> \<and>
             \<bar>x\<bar> < 2 powr (real_of_int (\<lfloor>log 2 \<bar>x\<bar>\<rfloor> + 1))"
    using floor_log_eq_powr_iff [of "\<bar>x\<bar>" 2 "\<lfloor>log 2 \<bar>x\<bar>\<rfloor>"] by simp
  then show "2 powi \<lfloor>log 2 \<bar>x\<bar>\<rfloor> \<le> \<bar>x\<bar>" and "\<bar>x\<bar> < 2 powi (\<lfloor>log 2 \<bar>x\<bar>\<rfloor> + 1)"
    by (simp_all only: powr2_int)
qed

lemma floor_log2_eq:
  assumes "2 powi a \<le> \<bar>x\<bar>" and "\<bar>x\<bar> < 2 powi (a + 1)"
  shows "\<lfloor>log 2 \<bar>x\<bar>\<rfloor> = a"
proof -
  have "0 < (2::real) powi a" by simp
  with assms(1) have "0 < \<bar>x\<bar>" by linarith
  moreover have "2 powr (real_of_int a) \<le> \<bar>x\<bar>" "\<bar>x\<bar> < 2 powr (real_of_int (a + 1))"
    using assms by (simp_all only: powr2_int)
  ultimately show ?thesis
    using floor_log_eq_powr_iff [of "\<bar>x\<bar>" 2 a] by simp
qed

lemma float_exponent_minus [simp]: "float_exponent (- x) = float_exponent x"
  by (simp add: float_exponent_def)

lemma quantum_minus [simp]: "quantum (- x) = quantum x"
  by (simp add: quantum_def)

lemma quantum_pos [simp]: "0 < quantum x"
  by (simp add: quantum_def)

lemma quantum_nonzero [simp]: "quantum x \<noteq> 0"
  by (simp add: quantum_def)

lemma powi2_less_imp:
  assumes "(2::real) powi m < 2 powi n"
  shows "m < n"
proof (rule ccontr)
  assume "\<not> m < n"
  then have "(2::real) powi n \<le> 2 powi m"
    by (intro power_int_increasing) simp_all
  with assms show False by simp
qed

lemma quantum_nonneg [simp]: "0 \<le> quantum x"
  by (simp add: quantum_def)

lemma quantum_53: "quantum x * 2 ^ 53 = 2 powi (float_exponent x + 1)"
proof -
  define e where "e = float_exponent x"
  have "(2::real) powi (e + 1) = 2 powi ((e - 52) + 53)"
    by (rule arg_cong [where f = "power_int 2"]) simp
  also have "\<dots> = 2 powi (e - 52) * 2 powi 53"
    by (rule power_int_add) simp
  finally show ?thesis by (simp add: quantum_def e_def)
qed

lemma quantum_52: "quantum x * 2 ^ 52 = 2 powi (float_exponent x)"
proof -
  define e where "e = float_exponent x"
  have "(2::real) powi e = 2 powi ((e - 52) + 52)"
    by (rule arg_cong [where f = "power_int 2"]) simp
  also have "\<dots> = 2 powi (e - 52) * 2 powi 52"
    by (rule power_int_add) simp
  finally show ?thesis by (simp add: quantum_def e_def)
qed

lemma float_exponent_mono:
  assumes "x \<noteq> 0" and "\<bar>x\<bar> \<le> \<bar>y\<bar>"
  shows "float_exponent x \<le> float_exponent y"
proof -
  have "0 < \<bar>x\<bar>" using assms(1) by simp
  with assms(2) have "log 2 \<bar>x\<bar> \<le> log 2 \<bar>y\<bar>" by simp
  then have "\<lfloor>log 2 \<bar>x\<bar>\<rfloor> \<le> \<lfloor>log 2 \<bar>y\<bar>\<rfloor>" by (rule floor_mono)
  then show ?thesis by (simp add: float_exponent_def)
qed

lemma scaled_less:
  assumes "x \<noteq> 0"
  shows "\<bar>x\<bar> / quantum x < 2 ^ 53"
proof -
  let ?e = "float_exponent x"
  have "\<lfloor>log 2 \<bar>x\<bar>\<rfloor> + 1 \<le> ?e + 1" by (simp add: float_exponent_def)
  then have "(2::real) powi (\<lfloor>log 2 \<bar>x\<bar>\<rfloor> + 1) \<le> 2 powi (?e + 1)"
    by (intro power_int_increasing) simp_all
  with floor_log2_bounds(2) [OF assms] have "\<bar>x\<bar> < 2 powi (?e + 1)" by linarith
  then have "\<bar>x\<bar> < quantum x * 2 ^ 53" by (simp only: quantum_53)
  then show ?thesis by (simp add: pos_divide_less_eq mult.commute)
qed

lemma scaled_ge:
  assumes "2 powi (- 1022) \<le> \<bar>x\<bar>"
  shows "2 ^ 52 \<le> \<bar>x\<bar> / quantum x" and "float_exponent x = \<lfloor>log 2 \<bar>x\<bar>\<rfloor>"
proof -
  have "0 < (2::real) powi (- 1022)" by (rule zero_less_power_int) simp
  with assms have nz: "x \<noteq> 0" by auto
  have "\<not> \<lfloor>log 2 \<bar>x\<bar>\<rfloor> + 1 \<le> - 1022"
  proof
    assume "\<lfloor>log 2 \<bar>x\<bar>\<rfloor> + 1 \<le> - 1022"
    then have "(2::real) powi (\<lfloor>log 2 \<bar>x\<bar>\<rfloor> + 1) \<le> 2 powi (- 1022)"
      by (intro power_int_increasing) simp_all
    with floor_log2_bounds(2) [OF nz] assms show False by linarith
  qed
  then show e: "float_exponent x = \<lfloor>log 2 \<bar>x\<bar>\<rfloor>" by (simp add: float_exponent_def)
  from floor_log2_bounds(1) [OF nz] have "quantum x * 2 ^ 52 \<le> \<bar>x\<bar>"
    by (simp only: quantum_52 e)
  then show "2 ^ 52 \<le> \<bar>x\<bar> / quantum x" by (simp add: pos_le_divide_eq mult.commute)
qed

lemma round_double_minus: "round_double (- x) = - round_double x"
  by (simp add: round_double_def round_half_even_minus)

lemma round_double_nonneg:
  assumes "0 \<le> x"
  shows "0 \<le> round_double x"
proof (cases "x = 0")
  case True
  then show ?thesis by (simp add: round_double_def)
next
  case False
  have "0 \<le> x / quantum x"
    using assms by (intro divide_nonneg_pos) simp_all
  then have "round_half_even 0 \<le> round_half_even (x / quantum x)"
    by (rule round_half_even_mono)
  then have "0 \<le> round_half_even (x / quantum x)"
    using round_half_even_of_int [of 0] by simp
  then have "0 \<le> quantum x * of_int (round_half_even (x / quantum x))"
    by (intro mult_nonneg_nonneg) simp_all
  with False show ?thesis by (simp add: round_double_def)
qed

lemma round_double_mono_pos:
  assumes "0 < x" and "x \<le> y"
  shows "round_double x \<le> round_double y"
proof -
  from assms have nz: "x \<noteq> 0" "y \<noteq> 0" and ab: "\<bar>x\<bar> \<le> \<bar>y\<bar>" by simp_all
  have le: "float_exponent x \<le> float_exponent y"
    using nz(1) ab by (rule float_exponent_mono)
  show ?thesis
  proof (cases "float_exponent x = float_exponent y")
    case True
    then have q: "quantum x = quantum y" by (simp add: quantum_def)
    have "x / quantum y \<le> y / quantum y"
      using assms(2) by (intro divide_right_mono) simp_all
    then have "round_half_even (x / quantum y) \<le> round_half_even (y / quantum y)"
      by (rule round_half_even_mono)
    then have "quantum y * of_int (round_half_even (x / quantum y)) \<le>
               quantum y * of_int (round_half_even (y / quantum y))"
      by (intro mult_left_mono) simp_all
    with nz q show ?thesis by (simp add: round_double_def)
  next
    case False
    with le have lt: "float_exponent x + 1 \<le> float_exponent y" by simp
    have "- 1022 \<le> float_exponent x" by (simp add: float_exponent_def)
    with lt have "float_exponent y \<noteq> - 1022" by simp
    then have ey: "float_exponent y = \<lfloor>log 2 \<bar>y\<bar>\<rfloor>" by (simp add: float_exponent_def max_def split: if_splits)
    have "x / quantum x \<le> of_int (2 ^ 53)"
      using scaled_less [OF nz(1)] assms(1) by simp
    then have "round_half_even (x / quantum x) \<le> round_half_even (of_int (2 ^ 53))"
      by (rule round_half_even_mono)
    then have "round_half_even (x / quantum x) \<le> 2 ^ 53" by simp
    then have "real_of_int (round_half_even (x / quantum x)) \<le> 2 ^ 53"
      by (metis of_int_le_iff of_int_numeral of_int_power)
    then have "round_double x \<le> quantum x * 2 ^ 53"
      using nz(1) by (simp add: round_double_def)
    also have "quantum x * 2 ^ 53 = 2 powi (float_exponent x + 1)"
      by (rule quantum_53)
    also have "\<dots> \<le> 2 powi (float_exponent y)"
      using lt by (intro power_int_increasing) simp_all
    finally have upper: "round_double x \<le> 2 powi (float_exponent y)" .
    have "2 powi (float_exponent y) \<le> \<bar>y\<bar>"
      using floor_log2_bounds(1) [OF nz(2)] by (simp add: ey)
    moreover have "\<bar>y\<bar> = y" using assms by simp
    ultimately have "quantum y * 2 ^ 52 \<le> y"
      by (simp only: quantum_52)
    then have "of_int (2 ^ 52) \<le> y / quantum y"
      by (simp add: pos_le_divide_eq mult.commute)
    then have "round_half_even (of_int (2 ^ 52)) \<le> round_half_even (y / quantum y)"
      by (rule round_half_even_mono)
    then have "2 ^ 52 \<le> round_half_even (y / quantum y)" by simp
    then have "2 ^ 52 \<le> real_of_int (round_half_even (y / quantum y))"
      by (metis of_int_le_iff of_int_numeral of_int_power)
    then have "quantum y * 2 ^ 52 \<le> round_double y"
      using nz(2) by (simp add: round_double_def)
    moreover have "quantum y * 2 ^ 52 = 2 powi (float_exponent y)"
      by (rule quantum_52)
    ultimately show ?thesis using upper by linarith
  qed
qed

lemma round_double_mono:
  assumes "x \<le> y"
  shows "round_double x \<le> round_double y"
proof -
  consider "0 < x" | "x \<le> 0" "0 \<le> y" | "y < 0" by linarith
  then show ?thesis
  proof cases
    case 1
    then show ?thesis using assms by (rule round_double_mono_pos)
  next
    case 2
    have "0 \<le> round_double (- x)" using 2(1) by (intro round_double_nonneg) simp
    then have "round_double x \<le> 0" by (simp add: round_double_minus)
    also have "0 \<le> round_double y" using 2(2) by (rule round_double_nonneg)
    finally show ?thesis .
  next
    case 3
    then have "round_double (- y) \<le> round_double (- x)"
      using assms by (intro round_double_mono_pos) simp_all
    then show ?thesis by (simp add: round_double_minus)
  qed
qed


lemma round_double_eval:
  assumes "2 powi a \<le> \<bar>x\<bar>" and "\<bar>x\<bar> < 2 powi (a + 1)" and "- 1022 \<le> a"
  shows "round_double x = 2 powi (a - 52) * of_int (round_half_even (x / 2 powi (a - 52)))"
proof -
  have "0 < (2::real) powi a" by simp
  with assms(1) have "0 < \<bar>x\<bar>" by linarith
  then have nz: "x \<noteq> 0" by simp
  have "float_exponent x = a"
    using floor_log2_eq [OF assms(1,2)] assms(3) by (simp add: float_exponent_def)
  with nz show ?thesis by (simp add: round_double_def quantum_def)
qed

lemma round_double_eval_subnormal:
  assumes "x \<noteq> 0" and "\<bar>x\<bar> < 2 powi (- 1022)"
  shows "round_double x = 2 powi (- 1074) * of_int (round_half_even (x / 2 powi (- 1074)))"
proof -
  have "\<not> - 1022 \<le> \<lfloor>log 2 \<bar>x\<bar>\<rfloor>"
  proof
    assume "- 1022 \<le> \<lfloor>log 2 \<bar>x\<bar>\<rfloor>"
    then have "(2::real) powi (- 1022) \<le> 2 powi \<lfloor>log 2 \<bar>x\<bar>\<rfloor>"
      by (intro power_int_increasing) simp_all
    with floor_log2_bounds(1) [OF assms(1)] assms(2) show False by linarith
  qed
  then have "float_exponent x = - 1022" by (simp add: float_exponent_def)
  with assms(1) show ?thesis by (simp add: round_double_def quantum_def)
qed

lemma round_double_fix:
  assumes "x / quantum x \<in> \<int>"
  shows "round_double x = x"
proof (cases "x = 0")
  case True
  then show ?thesis by (simp add: round_double_def)
next
  case False
  from assms obtain k where k: "x / quantum x = of_int k" by (auto elim: Ints_cases)
  then have "quantum x * of_int (round_half_even (x / quantum x)) = quantum x * (x / quantum x)"
    by simp
  also have "\<dots> = x" by simp
  finally show ?thesis using False by (simp add: round_double_def)
qed

lemma round_double_of_int:
  assumes "\<bar>m\<bar> < 2 ^ 53"
  shows "round_double (of_int m) = of_int m"
proof (cases "m = 0")
  case True
  then show ?thesis by (simp add: round_double_def)
next
  case False
  let ?x = "real_of_int m"
  let ?l = "\<lfloor>log 2 \<bar>?x\<bar>\<rfloor>"
  have nz: "?x \<noteq> 0" using False by simp
  have "1 \<le> \<bar>?x\<bar>" using False by (simp flip: of_int_abs)
  with floor_log2_bounds(2) [OF nz] have "(2::real) powi 0 < 2 powi (?l + 1)" by simp
  then have "0 < ?l + 1" by (rule powi2_less_imp)
  then have l0: "0 \<le> ?l" by simp
  have "\<bar>?x\<bar> < 2 ^ 53" using assms by (metis of_int_abs of_int_less_iff of_int_numeral of_int_power)
  with floor_log2_bounds(1) [OF nz] have "(2::real) powi ?l < 2 powi 53" by simp
  then have "?l < 53" by (rule powi2_less_imp)
  then have l52: "?l \<le> 52" by simp
  have e: "float_exponent ?x = ?l" using l0 by (simp add: float_exponent_def)
  define d where "d = nat (52 - ?l)"
  have d: "?l - 52 = - int d" using l52 by (simp add: d_def)
  have "quantum ?x = 1 / 2 ^ d"
    unfolding quantum_def e d by (simp add: power_int_minus_divide)
  then have "?x / quantum ?x = ?x * 2 ^ d" by simp
  also have "\<dots> = of_int (m * 2 ^ d)" by simp
  finally have "?x / quantum ?x \<in> \<int>" by (metis Ints_of_int)
  then show ?thesis by (rule round_double_fix)
qed


lemma round_double_1 [simp]: "round_double 1 = 1"
  using round_double_of_int [of 1] by simp

lemma round_double_numeral [simp]:
  "numeral k < (2::int) ^ 53 \<Longrightarrow> round_double (numeral k) = numeral k"
  using round_double_of_int [of "numeral k"] by simp

lemma round_double_0 [simp]: "round_double 0 = 0"
  by (simp add: round_double_def)

lemma round_double_abs_le_1:
  assumes "\<bar>x\<bar> \<le> 1"
  shows "\<bar>round_double x\<bar> \<le> 1"
proof -
  from assms have "- 1 \<le> x" "x \<le> 1" by simp_all
  then have "round_double (- 1) \<le> round_double x" "round_double x \<le> round_double 1"
    by (simp_all only: round_double_mono)
  then show ?thesis by (simp add: round_double_minus)
qed

lemma np_round_Fin:
  assumes "\<bar>round_double x\<bar> < 2 ^ 1024"
  shows "np_round x = Fin (round_double x)"
  using assms by (simp add: np_round_def)

lemma np_round_unit:
  assumes "\<bar>x\<bar> \<le> 1"
  shows "np_round x = Fin (round_double x)"
proof (rule np_round_Fin)
  have "(1::real) < 2 ^ 1024" by simp
  with round_double_abs_le_1 [OF assms] show "\<bar>round_double x\<bar> < 2 ^ 1024" by linarith
qed

text \<open>The doubles that the decimal literals of the examples denote.\<close>

lemma literal_0_1: "round_double (1 / 10) = 3602879701896397 / 2 ^ 55"
  by (subst round_double_eval [of "- 4"]) (simp_all add: round_half_even_def power_int_minus)

lemma literal_0_2: "round_double (2 / 10) = 3602879701896397 / 2 ^ 54"
  by (subst round_double_eval [of "- 3"]) (simp_all add: round_half_even_def power_int_minus)

lemma literal_0_8: "round_double (8 / 10) = 3602879701896397 / 2 ^ 52"
  by (subst round_double_eval [of "- 1"]) (simp_all add: round_half_even_def power_int_minus)




section \<open>Properties of visualization_record\<close>

subsection \<open>Auxiliary facts\<close>

lemma argsort_stable_contract: "argsort_contract argsort_stable"
  unfolding argsort_contract_def argsort_stable_def by auto

lemma foldl_max_zeros:
  "foldl (\<lambda>m y. if np_gt y m then y else m) (Fin 0) (replicate k (Fin 0)) = Fin 0"
  by (induction k) (simp_all add: np_gt_def)

lemma py_max_zeros: "0 < n \<Longrightarrow> py_max (replicate n (Fin 0)) = Inr (Fin 0)"
  by (cases n) (simp_all add: foldl_max_zeros)

lemma normalize_zeros:
  assumes "0 < n"
  shows "normalize_attributions (replicate n (Fin 0)) = Inr (replicate n NaN)"
  using py_max_zeros [OF assms]
  by (simp add: normalize_attributions_def py_max2_def np_gt_def)

lemma length_selection_mask: "length (selection_mask n idxs) = n"
proof -
  have "length (fold (\<lambda>i mask. mask[i := Fin 1]) idxs ms) = length ms"
    for ms :: "npfloat list"
    by (induction idxs arbitrary: ms) simp_all
  then show ?thesis by (simp add: selection_mask_def)
qed

lemma map2_mul_NaN:
  "length ms = n \<Longrightarrow> map2 np_mul (replicate n NaN) ms = replicate n NaN"
proof (induction n arbitrary: ms)
  case 0
  then show ?case by simp
next
  case (Suc n)
  then obtain b bs where "ms = b # bs" "length bs = n"
    by (cases ms) auto
  with Suc.IH show ?case by simp
qed

lemma salience_filter_NaN:
  "salience_filter argsort (replicate n NaN) pred f m = replicate n NaN"
  by (simp add: salience_filter_def Let_def map2_mul_NaN length_selection_mask
      split: option.split)

lemma normalize_attributions_nonempty:
  "attributions \<noteq> [] \<Longrightarrow> \<exists>v. normalize_attributions attributions = Inr v"
  by (cases attributions) (simp_all add: normalize_attributions_def)

lemma visualization_record_returns:
  assumes "attributions \<noteq> [] \<or> \<not> normalize_flag"
  shows "\<exists>v. (if normalize_flag then normalize_attributions attributions else Inr attributions) = Inr v"
  using assms normalize_attributions_nonempty by auto

lemma foldl_max_Fin_aux:
  "foldl (\<lambda>m y. if np_gt y m then y else m) (Fin x) (map Fin xs) = Fin (foldl max x xs)"
  by (induction xs arbitrary: x) (auto simp: np_gt_def max_def)

lemma foldl_max_Max:
  fixes x :: real
  shows "foldl max x xs = Max (insert x (set xs))"
proof (induction xs arbitrary: x)
  case Nil
  then show ?case by simp
next
  case (Cons y ys)
  have "Max (insert (max x y) (set ys)) = Max (insert x (insert y (set ys)))"
    by (cases "ys = []") (simp_all add: max.assoc)
  with Cons.IH [of "max x y"] show ?case by simp
qed

lemma py_max_Fin:
  "xs \<noteq> [] \<Longrightarrow> py_max (map Fin xs) = Inr (Fin (Max (set xs)))"
  by (cases xs) (simp_all add: foldl_max_Fin_aux foldl_max_Max del: Max_insert)

lemma py_max2_Fin: "py_max2 (Fin a) (Fin b) = Fin (max a b)"
  by (auto simp: py_max2_def np_gt_def)

lemma max_abs_conv:
  fixes xs :: "real list"
  assumes "xs \<noteq> []"
  shows "max (Max (set xs)) (Max (uminus ` set xs)) = Max (abs ` set xs)"
proof -
  let ?S = "set xs"
  have fin: "finite ?S" and ne: "?S \<noteq> {}" using assms by simp_all
  have hi_in: "Max ?S \<in> ?S" using fin ne by (rule Max_in)
  have "Max (uminus ` ?S) \<in> uminus ` ?S" using fin ne by (intro Max_in) simp_all
  then obtain a where a: "a \<in> ?S" "Max (uminus ` ?S) = - a" by auto
  have hi_ub: "y \<le> Max ?S" if "y \<in> ?S" for y using fin that by simp
  have lo_ub: "- y \<le> Max (uminus ` ?S)" if "y \<in> ?S" for y using fin that by simp
  have "Max (abs ` ?S) = max (Max ?S) (Max (uminus ` ?S))"
  proof (rule Max_eqI)
    show "finite (abs ` ?S)" by simp
  next
    fix y assume "y \<in> abs ` ?S"
    then obtain z where "z \<in> ?S" "y = \<bar>z\<bar>" by auto
    moreover from this have "z \<le> Max ?S" "- z \<le> Max (uminus ` ?S)"
      using hi_ub lo_ub by blast+
    ultimately show "y \<le> max (Max ?S) (Max (uminus ` ?S))"
      by (auto simp: abs_if le_max_iff_disj)
  next
    show "max (Max ?S) (Max (uminus ` ?S)) \<in> abs ` ?S"
    proof (cases "- a \<le> Max ?S")
      case True
      with hi_ub [OF a(1)] have "\<bar>Max ?S\<bar> = Max ?S" by simp
      with True a(2) hi_in show ?thesis by (metis image_eqI max.absorb1)
    next
      case False
      with hi_ub [OF a(1)] have "\<bar>a\<bar> = - a" by simp
      with False a show ?thesis by (metis image_eqI max.absorb2 linear)
    qed
  qed
  then show ?thesis by simp
qed

lemma max_abs_pos:
  fixes xs :: "real list"
  assumes "\<exists>x\<in>set xs. x \<noteq> 0"
  shows "0 < Max (abs ` set xs)"
proof -
  from assms obtain x where x: "x \<in> set xs" "x \<noteq> 0" by blast
  then have "\<bar>x\<bar> \<le> Max (abs ` set xs)" by simp
  with x(2) show ?thesis by simp
qed

lemma normalize_attributions_Fin:
  assumes "\<exists>x\<in>set xs. x \<noteq> 0"
  shows "normalize_attributions (map Fin xs) =
           Inr (map (\<lambda>x. Fin (round_double (x / Max (abs ` set xs)))) xs)"
proof -
  from assms have ne: "xs \<noteq> []" by auto
  have pos: "0 < Max (abs ` set xs)" using assms by (rule max_abs_pos)
  have "py_max (map Fin (map uminus xs)) = Inr (Fin (Max (set (map uminus xs))))"
    using ne by (intro py_max_Fin) simp
  then have lo: "py_max (map np_neg (map Fin xs)) = Inr (Fin (Max (uminus ` set xs)))"
    by (simp add: comp_def)
  have unit: "np_round (x / Max (abs ` set xs)) = Fin (round_double (x / Max (abs ` set xs)))"
    if "x \<in> set xs" for x
  proof (rule np_round_unit)
    have "\<bar>x\<bar> \<le> Max (abs ` set xs)" using that by simp
    then show "\<bar>x / Max (abs ` set xs)\<bar> \<le> 1" using pos by simp
  qed
  show ?thesis
    using pos ne lo unit
    by (simp add: normalize_attributions_def py_max_Fin py_max2_Fin max_abs_conv)
qed

lemma salience_filter_off:
  "max_frac_to_show = None \<or> (\<exists>f. max_frac_to_show = Some f \<and> 1 \<le> f) \<Longrightarrow>
   salience_filter argsort v pred max_frac_to_show m = v"
  by (auto simp: salience_filter_def)

lemma visualization_record_Inr:
  assumes "(if normalize_flag then normalize_attributions attributions else Inr attributions) = Inr v"
  shows "visualization_record argsort attributions text pred delta true_label
           normalize_flag max_frac_to_show match_to_pred =
         Inr \<lparr> word_attributions = salience_filter argsort v pred max_frac_to_show match_to_pred,
               pred_prob = pred,
               pred_class = (if np_gt pred (Fin (1 / 2)) then 1 else 0),
               true_class = true_label,
               attr_class = np_gt (np_sum (salience_filter argsort v pred max_frac_to_show match_to_pred)) (Fin 0),
               attr_score = np_sum (salience_filter argsort v pred max_frac_to_show match_to_pred),
               raw_input_ids = text,
               convergence_score = delta \<rparr>"
  using assms unfolding visualization_record_def by (simp add: Let_def)




lemma argsort_length:
  assumes "argsort_contract argsort"
  shows "length (argsort v) = length v"
proof -
  from assms have "distinct (argsort v)" "set (argsort v) = {..<length v}"
    by (simp_all add: argsort_contract_def)
  then show ?thesis by (metis card_lessThan distinct_card)
qed

lemma top_idxs_take:
  "0 \<le> k \<Longrightarrow> top_idxs argsort sal k = take (nat k) (argsort (map np_neg sal))"
  by (simp add: top_idxs_def py_slice_to_def)

lemma top_idxs_shape:
  assumes "argsort_contract argsort" and "0 \<le> k"
  shows "distinct (top_idxs argsort sal k)"
    and "set (top_idxs argsort sal k) \<subseteq> {..<length sal}"
    and "length (top_idxs argsort sal k) = min (nat k) (length sal)"
proof -
  let ?idxs = "argsort (map np_neg sal)"
  from assms(1) have d: "distinct ?idxs" and s: "set ?idxs = {..<length sal}"
    by (simp_all add: argsort_contract_def)
  show "distinct (top_idxs argsort sal k)"
    using d assms(2) by (simp add: top_idxs_take)
  show "set (top_idxs argsort sal k) \<subseteq> {..<length sal}"
    using s set_take_subset [of "nat k" ?idxs] assms(2) by (simp add: top_idxs_take)
  show "length (top_idxs argsort sal k) = min (nat k) (length sal)"
    using argsort_length [OF assms(1), of "map np_neg sal"] assms(2)
    by (simp add: top_idxs_take min.commute)
qed

lemma top_idxs_sorted:
  assumes "argsort_contract argsort" and "0 \<le> k"
  shows "sorted (map (\<lambda>i. sort_rank (np_neg (sal ! i))) (top_idxs argsort sal k))"
proof -
  let ?idxs = "argsort (map np_neg sal)"
  from assms(1) have s: "set ?idxs = {..<length sal}"
    and o: "sorted (map (\<lambda>i. sort_rank (map np_neg sal ! i)) ?idxs)"
    by (simp_all add: argsort_contract_def)
  have "map (\<lambda>i. sort_rank (map np_neg sal ! i)) ?idxs =
        map (\<lambda>i. sort_rank (np_neg (sal ! i))) ?idxs"
    using s by (intro map_cong) auto
  with o have "sorted (map (\<lambda>i. sort_rank (np_neg (sal ! i))) ?idxs)" by simp
  then have "sorted (take (nat k) (map (\<lambda>i. sort_rank (np_neg (sal ! i))) ?idxs))"
    by (rule sorted_wrt_take)
  then show ?thesis using assms(2) by (simp add: top_idxs_take take_map)
qed

lemma top_idxs_dominate:
  assumes "argsort_contract argsort" and "0 \<le> k"
    and "i \<in> set (top_idxs argsort sal k)" and "j < length sal"
    and "j \<notin> set (top_idxs argsort sal k)"
  shows "sort_rank (np_neg (sal ! i)) \<le> sort_rank (np_neg (sal ! j))"
proof -
  let ?idxs = "argsort (map np_neg sal)"
  let ?g = "\<lambda>i. sort_rank (map np_neg sal ! i)"
  from assms(1) have s: "set ?idxs = {..<length sal}" and o: "sorted (map ?g ?idxs)"
    by (simp_all add: argsort_contract_def)
  have i: "i \<in> set (take (nat k) ?idxs)" and nj: "j \<notin> set (take (nat k) ?idxs)"
    using assms(2,3,5) by (simp_all add: top_idxs_take)
  have "j \<in> set ?idxs" using s assms(4) by simp
  then have "j \<in> set (take (nat k) ?idxs) \<union> set (drop (nat k) ?idxs)"
    by (simp only: set_append [symmetric] append_take_drop_id)
  with nj have j: "j \<in> set (drop (nat k) ?idxs)" by blast
  have "sorted (map ?g (take (nat k) ?idxs) @ map ?g (drop (nat k) ?idxs))"
    using o by (simp flip: map_append)
  then have "?g i \<le> ?g j"
    using i j by (auto simp: sorted_append)
  moreover have "i < length sal"
    using i s in_set_takeD by fastforce
  ultimately show ?thesis using assms(4) by simp
qed


lemma round_double_eighth: "round_double (1 / 8) = 1 / 8"
  by (subst round_double_eval [of "- 3"]) (simp_all add: round_half_even_def power_int_minus)

lemma round_double_quarter: "round_double (1 / 4) = 1 / 4"
  by (subst round_double_eval [of "- 2"]) (simp_all add: round_half_even_def power_int_minus)

lemma round_double_third: "round_double (1 / 3) = 6004799503160661 / 2 ^ 54"
  by (subst round_double_eval [of "- 2"]) (simp_all add: round_half_even_def power_int_minus)

lemma np_round_values:
  "np_round 0 = Fin 0" "np_round 1 = Fin 1" "np_round (- 1) = Fin (- 1)"
  "np_round (1 / 4) = Fin (1 / 4)" "np_round (1 / 8) = Fin (1 / 8)"
  by (simp_all add: np_round_unit round_double_minus round_double_quarter round_double_eighth)

lemma salience_filter_Some:
  "f < 1 \<Longrightarrow> salience_filter argsort v pred (Some f) m =
     map2 np_mul v (selection_mask (length v)
       (top_idxs argsort (ranking_vector v pred m) (num_show f (length v))))"
  by (simp add: salience_filter_def Let_def)


lemma top_idxs_dominate_Fin:
  assumes "argsort_contract argsort" and "0 \<le> k"
    and "i \<in> set (top_idxs argsort (map Fin rk) k)" and "j < length rk"
    and "j \<notin> set (top_idxs argsort (map Fin rk) k)"
  shows "rk ! j \<le> rk ! i"
proof -
  have "i < length rk"
    using top_idxs_shape(2) [OF assms(1,2), of "map Fin rk"] assms(3) by auto
  with top_idxs_dominate [OF assms(1,2,3) _ assms(5)] assms(4)
  show ?thesis by simp
qed



lemma num_show_decimal: "num_show (34 / 100) 3 = 1"
proof -
  define y :: real where "y = 34 / 100 * real 3"
  have "round_double y = 4593671619917906 / 2 ^ 52"
    unfolding y_def
    by (subst round_double_eval [of 0]) (simp_all add: round_half_even_def power_int_minus)
  then have "py_int (round_double y) = py_int (4593671619917906 / 2 ^ 52)" by (simp only:)
  also have "\<dots> = 1" by (simp add: py_int_def)
  finally have "py_int (round_double y) = 1" .
  then show ?thesis unfolding num_show_def y_def .
qed


lemma normalization_example:
  assumes "max_frac_to_show = None \<or> (\<exists>f. max_frac_to_show = Some f \<and> 1 \<le> f)"
  shows "\<exists>r. visualization_record argsort
              [Fin (round_double (2 / 10)), Fin (- round_double (8 / 10)),
               Fin (round_double (1 / 10))] text pred
            delta true_label True max_frac_to_show match_to_pred = Inr r \<and>
        word_attributions r = [Fin (1 / 4), Fin (- 1), Fin (1 / 8)]"
proof -
  have "normalize_attributions
          [Fin (round_double (2 / 10)), Fin (- round_double (8 / 10)),
           Fin (round_double (1 / 10))] =
          Inr [Fin (1 / 4), Fin (- 1), Fin (1 / 8)]"
    unfolding literal_0_1 literal_0_2 literal_0_8
    by (simp add: normalize_attributions_def py_max2_def np_gt_def np_round_values)
  then show ?thesis
    by (simp add: visualization_record_Inr salience_filter_off [OF assms])
qed

subsection \<open>The all-zero vector\<close>

text \<open>
  C1, as the code has it. For every non-empty attribution vector whose entries are all
  zero, the call with normalization enabled raises no error, whatever the prediction, the
  salience fraction and \<open>match_to_pred\<close> are; but there is no fallback: the division
  \<open>0 / 0\<close> is carried out, and every entry of the displayed vector is NaN.
\<close>

theorem C1_all_zero_gives_nan:
  assumes "attributions \<noteq> []" and "\<forall>a\<in>set attributions. a = Fin 0"
  shows "\<exists>r. visualization_record argsort attributions text pred delta true_label
              True max_frac_to_show match_to_pred = Inr r \<and>
             word_attributions r = replicate (length attributions) NaN"
proof -
  define n where "n = length attributions"
  have n: "0 < n" using assms(1) by (simp add: n_def)
  have a: "attributions = replicate n (Fin 0)"
    unfolding n_def using assms(2) by (simp add: replicate_length_same)
  show ?thesis
    unfolding a using normalize_zeros [OF n]
    by (simp add: visualization_record_def Let_def salience_filter_NaN)
qed

theorem C1_all_zero_gives_nan_witness:
  "\<exists>r. visualization_record argsort_stable [Fin 0, Fin 0, Fin 0] [''a'', ''b'', ''c'']
          (Fin (7 / 10)) 0 1 True (Some (1 / 2)) False = Inr r \<and>
        word_attributions r = [NaN, NaN, NaN]"
  using C1_all_zero_gives_nan [of "[Fin 0, Fin 0, Fin 0]" argsort_stable "[''a'', ''b'', ''c'']"
      "Fin (7 / 10)" 0 1 "Some (1 / 2)" False]
  by (simp add: numeral_3_eq_3)

text \<open>
  The scenario of the specification, \<open>[0, 0, 0]\<close> with normalization enabled and no
  filtering: the displayed vector is \<open>[NaN, NaN, NaN]\<close>, not \<open>[0, 0, 0]\<close>.
\<close>

theorem C1_counterexample:
  "visualization_record argsort_stable [Fin 0, Fin 0, Fin 0] [''a'', ''b'', ''c'']
     (Fin (7 / 10)) 0 1 True (Some 1) False =
   Inr \<lparr> word_attributions = [NaN, NaN, NaN], pred_prob = Fin (7 / 10), pred_class = 1,
         true_class = 1, attr_class = False, attr_score = NaN,
         raw_input_ids = [''a'', ''b'', ''c''], convergence_score = 0 \<rparr>"
  by (simp add: visualization_record_def normalize_attributions_def py_max2_def np_gt_def
      np_sum_def salience_filter_def)

subsection \<open>The empty vector\<close>

text \<open>
  C4, as the code has it. For the empty attribution vector the result depends on the
  normalization flag only. With normalization disabled the call returns a record with an
  empty displayed vector, for every salience fraction (also \<open>None\<close>), prediction and
  \<open>match_to_pred\<close>. With normalization enabled \<open>max\<close> of the empty array raises
  ValueError.
\<close>

theorem C4_empty_vector:
  "visualization_record argsort [] text pred delta true_label normalize_flag
     max_frac_to_show match_to_pred =
   (if normalize_flag then Inl ValueError
    else Inr \<lparr> word_attributions = [], pred_prob = pred,
               pred_class = (if np_gt pred (Fin (1 / 2)) then 1 else 0),
               true_class = true_label, attr_class = False, attr_score = Fin 0,
               raw_input_ids = text, convergence_score = delta \<rparr>)"
  by (simp add: visualization_record_def normalize_attributions_def salience_filter_def
      np_sum_def np_gt_def Let_def split: option.split)

theorem C4_empty_vector_witness:
  "visualization_record argsort_stable [] [] (Fin (7 / 10)) 0 1 False (Some (1 / 2)) True =
     Inr \<lparr> word_attributions = [], pred_prob = Fin (7 / 10), pred_class = 1,
           true_class = 1, attr_class = False, attr_score = Fin 0,
           raw_input_ids = [], convergence_score = 0 \<rparr>"
  using C4_empty_vector [of argsort_stable "[]" "Fin (7 / 10)" 0 1 False "Some (1 / 2)" True]
  by (simp add: np_gt_def)

text \<open>The empty vector with normalization enabled: the call raises.\<close>

theorem C4_counterexample:
  "visualization_record argsort_stable [] [] (Fin (7 / 10)) 0 1 True (Some (1 / 2)) False
     = Inl ValueError"
  by (simp add: visualization_record_def normalize_attributions_def)

subsection \<open>Normalization\<close>

text \<open>
  C6, as the code has it. For every attribution vector with at least one nonzero entry,
  and with the salience filter off (\<open>max_frac_to_show\<close> is \<open>None\<close> or at least 1),
  the call with normalization enabled returns the entries divided by the largest absolute
  value, each quotient rounded to double. The largest absolute value of the result is
  exactly 1. No entry changes to the opposite sign and no two entries change their
  order: a nonnegative entry stays nonnegative, a nonpositive one nonpositive, and
  \<open>x \<le> y\<close> is kept. (A small entry may become 0 and two different entries may become
  equal.) In particular the doubles written \<open>[0.2, -0.8, 0.1]\<close> become
  \<open>[0.25, -1, 0.125]\<close>.
\<close>

theorem C6_normalization:
  assumes "\<exists>x\<in>set xs. x \<noteq> 0"
    and "max_frac_to_show = None \<or> (\<exists>f. max_frac_to_show = Some f \<and> 1 \<le> f)"
  shows "(\<exists>r ys. visualization_record argsort (map Fin xs) text pred delta true_label
                  True max_frac_to_show match_to_pred = Inr r \<and>
           word_attributions r = map Fin ys \<and>
           ys = map (\<lambda>x. round_double (x / Max (abs ` set xs))) xs \<and>
           Max (abs ` set ys) = 1 \<and>
           (\<forall>i<length xs. (0 \<le> xs ! i \<longrightarrow> 0 \<le> ys ! i) \<and> (xs ! i \<le> 0 \<longrightarrow> ys ! i \<le> 0)) \<and>
           (\<forall>i<length xs. \<forall>j<length xs. xs ! i \<le> xs ! j \<longrightarrow> ys ! i \<le> ys ! j)) \<and>
         (\<exists>r. visualization_record argsort
                [Fin (round_double (2 / 10)), Fin (- round_double (8 / 10)),
                 Fin (round_double (1 / 10))] text
                pred delta true_label True max_frac_to_show match_to_pred = Inr r \<and>
              word_attributions r = [Fin (1 / 4), Fin (- 1), Fin (1 / 8)])"
proof -
  define d where "d = Max (abs ` set xs)"
  define ys where "ys = map (\<lambda>x. round_double (x / d)) xs"
  have pos: "0 < d" unfolding d_def using assms(1) by (rule max_abs_pos)
  have norm: "normalize_attributions (map Fin xs) = Inr (map Fin ys)"
    using normalize_attributions_Fin [OF assms(1)] by (simp add: ys_def d_def comp_def)
  have rec: "\<exists>r. visualization_record argsort (map Fin xs) text pred delta true_label
                  True max_frac_to_show match_to_pred = Inr r \<and> word_attributions r = map Fin ys"
    using norm by (simp add: visualization_record_Inr salience_filter_off [OF assms(2)])
  have unit: "\<bar>x / d\<bar> \<le> 1" if "x \<in> set xs" for x
  proof -
    have "\<bar>x\<bar> \<le> d" unfolding d_def using that by simp
    then show ?thesis using pos by simp
  qed
  have mx: "Max (abs ` set ys) = 1"
  proof (rule Max_eqI)
    show "finite (abs ` set ys)" by simp
  next
    fix y assume "y \<in> abs ` set ys"
    then obtain x where "x \<in> set xs" "y = \<bar>round_double (x / d)\<bar>"
      by (auto simp: ys_def)
    with unit [of x] show "y \<le> 1" by (simp add: round_double_abs_le_1)
  next
    have "d \<in> abs ` set xs"
      unfolding d_def using assms(1) by (intro Max_in) auto
    then obtain x where x: "x \<in> set xs" "\<bar>x\<bar> = d" by auto
    then have "x / d = 1 \<or> x / d = - 1" using pos by (auto simp: abs_if split: if_splits)
    then have "\<bar>round_double (x / d)\<bar> = 1"
      by (auto simp: round_double_minus)
    with x(1) show "1 \<in> abs ` set ys"
      unfolding ys_def by (metis (mono_tags, lifting) image_eqI image_set list.set_map)
  qed
  have sg: "(0 \<le> xs ! i \<longrightarrow> 0 \<le> ys ! i) \<and> (xs ! i \<le> 0 \<longrightarrow> ys ! i \<le> 0)"
    if "i < length xs" for i
  proof (intro conjI impI)
    assume "0 \<le> xs ! i"
    then have "0 \<le> xs ! i / d" using pos by simp
    then show "0 \<le> ys ! i" using that by (simp add: ys_def round_double_nonneg)
  next
    assume "xs ! i \<le> 0"
    then have "xs ! i / d \<le> 0" using pos by (simp add: divide_le_0_iff)
    then have "round_double (xs ! i / d) \<le> round_double 0" by (rule round_double_mono)
    then show "ys ! i \<le> 0" using that by (simp add: ys_def)
  qed
  have ord: "ys ! i \<le> ys ! j" if "i < length xs" "j < length xs" "xs ! i \<le> xs ! j" for i j
  proof -
    have "xs ! i / d \<le> xs ! j / d" using that(3) pos by (simp add: divide_right_mono)
    then show ?thesis using that(1,2) by (simp add: ys_def round_double_mono)
  qed
  have "\<exists>r ys. visualization_record argsort (map Fin xs) text pred delta true_label
                  True max_frac_to_show match_to_pred = Inr r \<and>
           word_attributions r = map Fin ys \<and>
           ys = map (\<lambda>x. round_double (x / Max (abs ` set xs))) xs \<and>
           Max (abs ` set ys) = 1 \<and>
           (\<forall>i<length xs. (0 \<le> xs ! i \<longrightarrow> 0 \<le> ys ! i) \<and> (xs ! i \<le> 0 \<longrightarrow> ys ! i \<le> 0)) \<and>
           (\<forall>i<length xs. \<forall>j<length xs. xs ! i \<le> xs ! j \<longrightarrow> ys ! i \<le> ys ! j)"
    using rec mx sg ord unfolding ys_def d_def by blast
  with normalization_example [OF assms(2)] show ?thesis by blast
qed

theorem C6_normalization_witness:
  "\<exists>r. visualization_record argsort_stable [Fin 1, Fin (- 3), Fin 0] [''a'', ''b'', ''c'']
          (Fin (7 / 10)) 0 1 True (Some 1) False = Inr r \<and>
        word_attributions r = [Fin (6004799503160661 / 2 ^ 54), Fin (- 1), Fin 0]"
proof -
  have nz: "\<exists>x\<in>set [1, - 3, 0 :: real]. x \<noteq> 0" by simp
  have off: "Some (1::real) = None \<or> (\<exists>f. Some (1::real) = Some f \<and> 1 \<le> f)" by simp
  have mx: "Max (abs ` set [1, - 3, 0 :: real]) = 3" by simp
  from C6_normalization [OF nz off, of argsort_stable "[''a'', ''b'', ''c'']" "Fin (7 / 10)" 0 1 False]
  obtain r where
    "visualization_record argsort_stable (map Fin [1, - 3, 0]) [''a'', ''b'', ''c'']
          (Fin (7 / 10)) 0 1 True (Some 1) False = Inr r"
    "word_attributions r =
       map Fin (map (\<lambda>x. round_double (x / Max (abs ` set [1, - 3, 0 :: real]))) [1, - 3, 0])"
    by blast
  then show ?thesis
    unfolding mx by (simp add: round_double_third round_double_minus)
qed

text \<open>
  An entry that is positive and above its neighbour before, and zero and equal to it
  after: \<open>[0, 5e-324, 4]\<close> (the second entry is the smallest positive double) is
  displayed as \<open>[0, 0, 1]\<close>.
\<close>

theorem C6_counterexample:
  "visualization_record argsort_stable [Fin 0, Fin (1 / 2 ^ 1074), Fin 4] [''a'', ''b'', ''c'']
     (Fin (7 / 10)) 0 1 True (Some 1) False =
   Inr \<lparr> word_attributions = [Fin 0, Fin 0, Fin 1], pred_prob = Fin (7 / 10), pred_class = 1,
         true_class = 1, attr_class = True, attr_score = Fin 1,
         raw_input_ids = [''a'', ''b'', ''c''], convergence_score = 0 \<rparr>"
proof -
  have "round_double (1 / 2 ^ 1074 / 4) = 0"
    by (subst round_double_eval_subnormal)
      (simp_all add: round_half_even_def power_int_minus)
  then have tiny: "np_round (1 / 2 ^ 1074 / 4) = Fin 0"
    by (simp add: np_round_def)
  have "normalize_attributions [Fin 0, Fin (1 / 2 ^ 1074), Fin 4] = Inr [Fin 0, Fin 0, Fin 1]"
    using tiny by (simp add: normalize_attributions_def py_max2_def np_gt_def np_round_values)
  then show ?thesis
    by (simp add: visualization_record_Inr salience_filter_def np_sum_def np_gt_def
        np_round_values)
qed

subsection \<open>The predicted class\<close>

text \<open>
  C7. Whenever the call returns (the vector is not empty, or normalization is off), the
  record's \<open>pred_class\<close> is \<open>int(pred > 0.5)\<close>: 1 exactly when the prediction is
  strictly greater than 0.5, and 0 otherwise, so 0 at exactly 0.5 (and for NaN, which
  compares false).
\<close>

theorem C7_predicted_class:
  assumes "attributions \<noteq> [] \<or> \<not> normalize_flag"
  shows "\<exists>r. visualization_record argsort attributions text pred delta true_label
              normalize_flag max_frac_to_show match_to_pred = Inr r \<and>
             pred_class r =
               (case pred of Fin p \<Rightarrow> if 1 / 2 < p then 1 else 0 | PInf \<Rightarrow> 1 | NInf \<Rightarrow> 0 | NaN \<Rightarrow> 0)"
proof -
  obtain v where "(if normalize_flag then normalize_attributions attributions else Inr attributions) = Inr v"
    using visualization_record_returns [OF assms] by blast
  then show ?thesis
    by (cases pred) (simp_all add: visualization_record_Inr np_gt_def)
qed

theorem C7_predicted_class_witness:
  "(\<exists>r. visualization_record argsort_stable [Fin (1 / 5), Fin (- 4 / 5)] [''a'', ''b'']
          (Fin (1 / 2)) 0 1 True (Some 1) False = Inr r \<and> pred_class r = 0) \<and>
   (\<exists>r. visualization_record argsort_stable [Fin (1 / 5), Fin (- 4 / 5)] [''a'', ''b'']
          (Fin (500001 / 1000000)) 0 1 True (Some 1) False = Inr r \<and> pred_class r = 1)"
  using C7_predicted_class [of "[Fin (1 / 5), Fin (- 4 / 5)]" True argsort_stable "[''a'', ''b'']"
      "Fin (1 / 2)" 0 1 "Some 1" False]
    C7_predicted_class [of "[Fin (1 / 5), Fin (- 4 / 5)]" True argsort_stable "[''a'', ''b'']"
      "Fin (500001 / 1000000)" 0 1 "Some 1" False]
  by simp

subsection \<open>The salience filter\<close>




subsection \<open>Ties in the ranking\<close>

text \<open>
  C3, as the code has it. For every \<open>argsort\<close> within numpy's contract, every ranking
  vector of reals and every \<open>k \<ge> 0\<close>, \<open>top_idxs\<close> lists \<open>min k length\<close> distinct
  positions in descending order of ranking value, and every listed position ranks at
  least as high as every position left out. Which of several positions of equal ranking
  value is listed is left to \<open>np.argsort\<close>.
\<close>

theorem C3_top_k_by_value:
  assumes "argsort_contract argsort" and "0 \<le> k"
  shows "distinct (top_idxs argsort (map Fin rk) k) \<and>
         length (top_idxs argsort (map Fin rk) k) = min (nat k) (length rk) \<and>
         set (top_idxs argsort (map Fin rk) k) \<subseteq> {..<length rk} \<and>
         sorted_wrt (\<lambda>i j. rk ! j \<le> rk ! i) (top_idxs argsort (map Fin rk) k) \<and>
         (\<forall>i\<in>set (top_idxs argsort (map Fin rk) k). \<forall>j<length rk.
             j \<notin> set (top_idxs argsort (map Fin rk) k) \<longrightarrow> rk ! j \<le> rk ! i)"
proof -
  let ?top = "top_idxs argsort (map Fin rk) k"
  note shape = top_idxs_shape [OF assms, of "map Fin rk"]
  have "sorted_wrt (\<lambda>i j. sort_rank (np_neg (map Fin rk ! i)) \<le> sort_rank (np_neg (map Fin rk ! j))) ?top"
    using top_idxs_sorted [OF assms, of "map Fin rk"] by (simp add: sorted_map)
  then have "sorted_wrt (\<lambda>i j. rk ! j \<le> rk ! i) ?top"
  proof (rule sorted_wrt_mono_rel [rotated])
    fix i j
    assume "i \<in> set ?top" "j \<in> set ?top"
      and "sort_rank (np_neg (map Fin rk ! i)) \<le> sort_rank (np_neg (map Fin rk ! j))"
    moreover from this shape(2) have "i < length rk" "j < length rk" by auto
    ultimately show "rk ! j \<le> rk ! i" by simp
  qed
  moreover have "\<forall>i\<in>set ?top. \<forall>j<length rk. j \<notin> set ?top \<longrightarrow> rk ! j \<le> rk ! i"
    using top_idxs_dominate_Fin [OF assms] by blast
  ultimately show ?thesis using shape by simp
qed

theorem C3_top_k_by_value_witness:
  "top_idxs argsort_stable (map Fin [1 / 10, 7 / 10, 7 / 10, 3 / 10]) 2 = [1, 2] \<and>
   sorted_wrt (\<lambda>i j. [1 / 10, 7 / 10, 7 / 10, 3 / 10 :: real] ! j \<le> [1 / 10, 7 / 10, 7 / 10, 3 / 10] ! i)
     (top_idxs argsort_stable (map Fin [1 / 10, 7 / 10, 7 / 10, 3 / 10]) 2)"
proof -
  have k: "(0::int) \<le> 2" by simp
  have "top_idxs argsort_stable (map Fin [1 / 10, 7 / 10, 7 / 10, 3 / 10]) 2 = [1, 2]"
    by (simp add: top_idxs_def py_slice_to_def argsort_stable_def upt_rec)
  with C3_top_k_by_value [OF argsort_stable_contract k, of "[1 / 10, 7 / 10, 7 / 10, 3 / 10]"]
  show ?thesis by simp
qed

theorem C3_counterexample:
  "\<not> (\<forall>argsort. argsort_contract argsort \<longrightarrow>
        (\<forall>rk k i j. 0 \<le> k \<and> i < j \<and> j < length rk \<and> rk ! i = rk ! j \<and>
                    j \<in> set (top_idxs argsort (map Fin rk) k) \<longrightarrow>
                    i \<in> set (top_idxs argsort (map Fin rk) k)))"
proof
  let ?argsort = "\<lambda>v. sort_key (\<lambda>i. sort_rank (v ! i)) (rev [0..<length v])"
  assume claim: "\<forall>argsort. argsort_contract argsort \<longrightarrow>
        (\<forall>rk k i j. 0 \<le> k \<and> i < j \<and> j < length rk \<and> rk ! i = rk ! j \<and>
                    j \<in> set (top_idxs argsort (map Fin rk) k) \<longrightarrow>
                    i \<in> set (top_idxs argsort (map Fin rk) k))"
  have "argsort_contract ?argsort"
    unfolding argsort_contract_def by auto
  with claim have "\<forall>rk k i j. 0 \<le> k \<and> i < j \<and> j < length rk \<and> rk ! i = rk ! j \<and>
                    j \<in> set (top_idxs ?argsort (map Fin rk) k) \<longrightarrow>
                    i \<in> set (top_idxs ?argsort (map Fin rk) k)"
    by blast
  moreover have top: "top_idxs ?argsort (map Fin [1, 1]) 1 = [1]"
    by (simp add: top_idxs_def py_slice_to_def upt_rec)
  ultimately have "(0::nat) \<in> set [1::nat]"
    by (metis (no_types, lifting) top zero_less_one zero_le_one length_Cons list.size(3)
        nth_Cons_0 nth_Cons_Suc One_nat_def lessI list.set_intros(1))
  then show False by simp
qed

subsection \<open>The threshold boundary\<close>

text \<open>
  C10. For a prediction of exactly 0.5, \<open>match_to_pred = True\<close> and \<open>0 < f < 1\<close>, the
  ranking vector is the attribution vector itself (it is negated only for a prediction
  strictly below 0.5), the displayed vector is selected by that un-negated ranking, and
  the same record has \<open>pred_class = 0\<close>.
\<close>

theorem C10_boundary_disagreement:
  assumes "0 < f" and "f < 1" and "attributions \<noteq> [] \<or> \<not> normalize_flag"
  shows "\<exists>r v. visualization_record argsort attributions text (Fin (1 / 2)) delta true_label
              normalize_flag (Some f) True = Inr r \<and>
           (if normalize_flag then normalize_attributions attributions else Inr attributions)
             = Inr v \<and>
           ranking_vector v (Fin (1 / 2)) True = v \<and>
           (\<forall>p<1 / 2. ranking_vector v (Fin p) True = map np_neg v) \<and>
           word_attributions r =
             map2 np_mul v
               (selection_mask (length v) (top_idxs argsort v (num_show f (length v)))) \<and>
           pred_class r = 0"
proof -
  obtain v where
    v: "(if normalize_flag then normalize_attributions attributions else Inr attributions) = Inr v"
    using visualization_record_returns [OF assms(3)] by blast
  have rv: "ranking_vector v (Fin (1 / 2)) True = v"
    by (simp add: ranking_vector_def)
  have below: "\<forall>p<1 / 2. ranking_vector v (Fin p) True = map np_neg v"
    by (simp add: ranking_vector_def)
  show ?thesis
    using v rv below assms(2)
    by (simp add: visualization_record_Inr [OF v] salience_filter_Some np_gt_def)
qed

theorem C10_boundary_disagreement_witness:
  "\<exists>r. visualization_record argsort_stable [Fin (2 / 10), Fin (- 8 / 10), Fin (1 / 10)]
          [''a'', ''b'', ''c''] (Fin (1 / 2)) 0 0 False (Some (34 / 100)) True = Inr r \<and>
        word_attributions r = [Fin (2 / 10), Fin 0, Fin 0] \<and>
        pred_class r = 0"
proof -
  have f: "(0::real) < 34 / 100" "(34 / 100 :: real) < 1" by simp_all
  have ne: "[Fin (2 / 10), Fin (- 8 / 10), Fin (1 / 10)] \<noteq> [] \<or> \<not> False" by simp
  have "length [Fin (2 / 10), Fin (- 8 / 10), Fin (1 / 10)] = 3" by simp
  then have k: "num_show (34 / 100) (length [Fin (2 / 10), Fin (- 8 / 10), Fin (1 / 10)]) = 1"
    by (simp only: num_show_decimal)
  have "top_idxs argsort_stable [Fin (2 / 10), Fin (- 8 / 10), Fin (1 / 10)]
          (num_show (34 / 100) (length [Fin (2 / 10), Fin (- 8 / 10), Fin (1 / 10)])) = [0]"
    unfolding k
    by (simp add: top_idxs_def py_slice_to_def argsort_stable_def upt_rec)
  with C10_boundary_disagreement [OF f ne, of argsort_stable "[''a'', ''b'', ''c'']" 0 0]
  show ?thesis by (auto simp: selection_mask_def)
qed

section \<open>Properties of the parsed lists\<close>

lemma bind_err_simps [simp]:
  "bind_err (Inl e) f = Inl e" "bind_err (Inr x) f = f x"
  by (simp_all add: bind_err_def)

lemma comprehension_first_error:
  assumes "\<forall>y\<in>set ys. \<exists>v. f y = Inr v" and "f x = Inl e"
  shows "comprehension f (ys @ x # zs) = Inl e"
  using assms by (induction ys) auto

lemma comprehension_error:
  assumes "x \<in> set xs" and "f x = Inl e"
  shows "\<exists>e'. comprehension f xs = Inl e'"
  using assms
proof (induction xs)
  case Nil
  then show ?case by simp
next
  case (Cons a xs)
  show ?case
  proof (cases "f a")
    case (Inl e')
    then show ?thesis by simp
  next
    case (Inr v)
    with Cons have "\<exists>e'. comprehension f xs = Inl e'" by auto
    with Inr show ?thesis by auto
  qed
qed

lemma entry_attribution_missing:
  "map_of items ''attribution'' = None \<Longrightarrow>
   entry_attribution (JObj items) = Inl (KeyError ''attribution'')"
  by (simp add: entry_attribution_def)

lemma entry_token_missing:
  "map_of items ''description'' = None \<Longrightarrow>
   entry_token (JObj items) = Inl (KeyError ''description'')"
  by (simp add: entry_token_def)

text \<open>
  C5, as the code has it. Let a record of the batch have an entry (a JSON object) without
  the \<open>attribution\<close> field. Then building \<open>attributions_dataset\<close> raises for every
  batch that holds the record, and nothing is returned for any instance, the well formed
  ones included; when the entries and records before it are well formed, the exception
  is \<open>KeyError('attribution')\<close>. The same holds for the \<open>description\<close> field and
  \<open>tokens_dataset\<close>. There is no MalformedRecord error and no handling per instance.
\<close>

theorem C5_missing_field_aborts_batch:
  assumes "explanation_entries expl = Inr (pre @ JObj items # post)"
  shows "(map_of items ''attribution'' = None \<longrightarrow>
           (\<forall>shap_out. expl \<in> set shap_out \<longrightarrow> (\<exists>e. attributions_dataset shap_out = Inl e)) \<and>
           ((\<forall>a\<in>set pre. \<exists>v. entry_attribution a = Inr v) \<and>
            (\<forall>x\<in>set before. \<exists>v. instance_attributions x = Inr v) \<longrightarrow>
            attributions_dataset (before @ expl # after) = Inl (KeyError ''attribution''))) \<and>
         (map_of items ''description'' = None \<longrightarrow>
           (\<forall>shap_out. expl \<in> set shap_out \<longrightarrow> (\<exists>e. tokens_dataset shap_out = Inl e)) \<and>
           ((\<forall>a\<in>set pre. \<exists>v. entry_token a = Inr v) \<and>
            (\<forall>x\<in>set before. \<exists>v. instance_tokens x = Inr v) \<longrightarrow>
            tokens_dataset (before @ expl # after) = Inl (KeyError ''description'')))"
proof (intro conjI impI allI)
  fix shap_out
  assume m: "map_of items ''attribution'' = None" and "expl \<in> set shap_out"
  have "\<exists>e. comprehension entry_attribution (pre @ JObj items # post) = Inl e"
    by (rule comprehension_error [of "JObj items"]) (simp_all add: entry_attribution_missing [OF m])
  then obtain e where "instance_attributions expl = Inl e"
    using assms by (auto simp: instance_attributions_def)
  with \<open>expl \<in> set shap_out\<close> show "\<exists>e. attributions_dataset shap_out = Inl e"
    unfolding attributions_dataset_def by (rule comprehension_error)
next
  assume m: "map_of items ''attribution'' = None"
    and ok: "(\<forall>a\<in>set pre. \<exists>v. entry_attribution a = Inr v) \<and>
             (\<forall>x\<in>set before. \<exists>v. instance_attributions x = Inr v)"
  have "comprehension entry_attribution (pre @ JObj items # post) = Inl (KeyError ''attribution'')"
    using ok entry_attribution_missing [OF m] by (intro comprehension_first_error) simp_all
  then have "instance_attributions expl = Inl (KeyError ''attribution'')"
    using assms by (simp add: instance_attributions_def)
  with ok show "attributions_dataset (before @ expl # after) = Inl (KeyError ''attribution'')"
    unfolding attributions_dataset_def by (intro comprehension_first_error) simp_all
next
  fix shap_out
  assume m: "map_of items ''description'' = None" and "expl \<in> set shap_out"
  have "\<exists>e. comprehension entry_token (pre @ JObj items # post) = Inl e"
    by (rule comprehension_error [of "JObj items"]) (simp_all add: entry_token_missing [OF m])
  then obtain e where "instance_tokens expl = Inl e"
    using assms by (auto simp: instance_tokens_def)
  with \<open>expl \<in> set shap_out\<close> show "\<exists>e. tokens_dataset shap_out = Inl e"
    unfolding tokens_dataset_def by (rule comprehension_error)
next
  assume m: "map_of items ''description'' = None"
    and ok: "(\<forall>a\<in>set pre. \<exists>v. entry_token a = Inr v) \<and>
             (\<forall>x\<in>set before. \<exists>v. instance_tokens x = Inr v)"
  have "comprehension entry_token (pre @ JObj items # post) = Inl (KeyError ''description'')"
    using ok entry_token_missing [OF m] by (intro comprehension_first_error) simp_all
  then have "instance_tokens expl = Inl (KeyError ''description'')"
    using assms by (simp add: instance_tokens_def)
  with ok show "tokens_dataset (before @ expl # after) = Inl (KeyError ''description'')"
    unfolding tokens_dataset_def by (intro comprehension_first_error) simp_all
qed

theorem C5_missing_field_aborts_batch_witness:
  "tokens_dataset
     [JObj [(''explanations'', JArr [JObj [(''attributions'',
        JArr [JObj [(''attribution'', JArr [JNum (3 / 10)]),
                    (''description'', JObj [(''partial_text'', JStr ''nice'')])]])]])],
      JObj [(''explanations'', JArr [JObj [(''attributions'',
        JArr [JObj [(''attribution'', JArr [JNum (- 1 / 10)])]])]])]]
   = Inl (KeyError ''description'')"
proof -
  let ?good = "JObj [(''explanations'', JArr [JObj [(''attributions'',
        JArr [JObj [(''attribution'', JArr [JNum (3 / 10)]),
                    (''description'', JObj [(''partial_text'', JStr ''nice'')])]])]])]"
  let ?bad = "JObj [(''explanations'', JArr [JObj [(''attributions'',
        JArr [JObj [(''attribution'', JArr [JNum (- 1 / 10)])]])]])]"
  have entries: "explanation_entries ?bad =
      Inr ([] @ JObj [(''attribution'', JArr [JNum (- 1 / 10)])] # [])"
    by (simp add: explanation_entries_def)
  have missing: "map_of [(''attribution'', JArr [JNum (- 1 / 10)])] ''description'' = None"
    by simp
  have before: "\<forall>x\<in>set [?good]. \<exists>v. instance_tokens x = Inr v"
    by (simp add: instance_tokens_def explanation_entries_def entry_token_def)
  from C5_missing_field_aborts_batch [OF entries, of "[?good]" "[]"] missing before
  show ?thesis by simp
qed

text \<open>
  A batch of a well formed record and one whose entry has no \<open>attribution\<close>: the well
  formed record alone is parsed, the batch of both raises and yields no list at all.
\<close>

theorem C5_counterexample:
  "attributions_dataset
     [JObj [(''explanations'', JArr [JObj [(''attributions'',
        JArr [JObj [(''attribution'', JArr [JNum (3 / 10)]),
                    (''description'', JObj [(''partial_text'', JStr ''nice'')])]])]])]]
   = Inr [[JNum (3 / 10)]] \<and>
   attributions_dataset
     [JObj [(''explanations'', JArr [JObj [(''attributions'',
        JArr [JObj [(''attribution'', JArr [JNum (3 / 10)]),
                    (''description'', JObj [(''partial_text'', JStr ''nice'')])]])]])],
      JObj [(''explanations'', JArr [JObj [(''attributions'',
        JArr [JObj [(''description'', JObj [(''partial_text'', JStr ''bad'')])]])]])]]
   = Inl (KeyError ''attribution'')"
  by (simp add: attributions_dataset_def instance_attributions_def explanation_entries_def
      entry_attribution_def)

section \<open>Properties of the dataframe functions\<close>






















subsection \<open>create_target_column\<close>




subsection \<open>number_encode_features\<close>



end
